theory Spec2Isabelle
  imports Complex_Main
begin

unbundle bit_operations_syntax

section \<open>Python values, errors and loops\<close>

text \<open>
  The program is one notebook, \<open>explore.ipynb\<close>: the key generator \<open>gen_bin_key\<close> and the
  text cipher \<open>unicode_to_binary\<close>, \<open>binary_to_unicode\<close>, \<open>encrypt\<close>, \<open>decrypt\<close>.

  A Python \<open>str\<close> holding text is a list of code points (\<open>nat list\<close>, \<open>ord\<close> is the
  identity); a \<open>str\<close> that is only read digit by digit (binary strings, keys, the
  returned key) is a \<open>string\<close>. A raised exception is the left summand of a sum.
\<close>

datatype py_error = IndexError | KeyError | ValueError

type_synonym ustr = "nat list"

definition getitem :: "'a list \<Rightarrow> nat \<Rightarrow> py_error + 'a" where
  \<comment> \<open>\<open>xs[i]\<close> for a non-negative index\<close>
  "getitem xs i = (if i < length xs then Inr (xs ! i) else Inl IndexError)"

fun for_loop :: "'i list \<Rightarrow> ('s \<Rightarrow> 'i \<Rightarrow> py_error + 's) \<Rightarrow> 's \<Rightarrow> py_error + 's" where
  \<comment> \<open>\<open>for i in is: body\<close>, the body updating the loop's variables or raising\<close>
  "for_loop [] body s = Inr s"
| "for_loop (i # is) body s =
     (case body s i of Inl e \<Rightarrow> Inl e | Inr s' \<Rightarrow> for_loop is body s')"

definition range_step :: "nat \<Rightarrow> nat \<Rightarrow> nat list" where
  \<comment> \<open>\<open>range(0, n, step)\<close>\<close>
  "range_step n step = map (\<lambda>j. j * step) [0..<(n + step - 1) div step]"

definition slice :: "'a list \<Rightarrow> nat \<Rightarrow> nat \<Rightarrow> 'a list" where
  \<comment> \<open>\<open>xs[i:j]\<close> for \<open>0 \<le> i \<le> j\<close>\<close>
  "slice xs i j = take (j - i) (drop i xs)"

definition digit_char :: "nat \<Rightarrow> char" where
  "digit_char d = ''0123456789'' ! d"

fun str :: "nat \<Rightarrow> string" where
  \<comment> \<open>\<open>str(n)\<close> for a non-negative \<open>int\<close>\<close>
  "str n = (if n < 10 then [digit_char n] else str (n div 10) @ [digit_char (n mod 10)])"

declare str.simps [simp del]

definition py_int :: "char \<Rightarrow> py_error + nat" where
  \<comment> \<open>\<open>int(c)\<close> for a one-character string\<close>
  "py_int c = (if c \<in> set ''0123456789'' then Inr (of_char c - 48) else Inl ValueError)"

definition base2_value :: "string \<Rightarrow> nat" where
  "base2_value s = foldl (\<lambda>v c. 2 * v + (if c = CHR ''1'' then 1 else 0)) 0 s"

definition int_base2 :: "string \<Rightarrow> py_error + nat" where
  \<comment> \<open>\<open>int(s, 2)\<close> for a string of decimal digits: a digit above 1 is a \<open>ValueError\<close>\<close>
  "int_base2 s =
     (if s \<noteq> [] \<and> set s \<subseteq> {CHR ''0'', CHR ''1''}
      then Inr (base2_value s)
      else Inl ValueError)"

definition chr :: "nat \<Rightarrow> py_error + nat" where
  "chr v = (if v < 0x110000 then Inr v else Inl ValueError)"

fun bin :: "nat \<Rightarrow> string" where
  \<comment> \<open>the digits of \<open>format(n, 'b')\<close>\<close>
  "bin n = (if n < 2 then [digit_char n] else bin (n div 2) @ [digit_char (n mod 2)])"

declare bin.simps [simp del]

definition format_08b :: "nat \<Rightarrow> string" where
  \<comment> \<open>\<open>format(n, '08b')\<close>: zero-padded on the left to a width of at least 8\<close>
  "format_08b n = replicate (8 - length (bin n)) CHR ''0'' @ bin n"

section \<open>The cipher\<close>

definition unicode_to_binary :: "ustr \<Rightarrow> string" where
  "unicode_to_binary text = concat (map (\<lambda>char. format_08b char) text)"

definition decode_body :: "string \<Rightarrow> ustr \<Rightarrow> nat \<Rightarrow> py_error + ustr" where
  \<comment> \<open>one element of the comprehension: \<open>chr(int(binary[i:i+8], 2))\<close>\<close>
  "decode_body binary out i =
     (case int_base2 (slice binary i (i + 8)) of
        Inl e \<Rightarrow> Inl e
      | Inr v \<Rightarrow> (case chr v of Inl e \<Rightarrow> Inl e | Inr c \<Rightarrow> Inr (out @ [c])))"

definition binary_to_unicode :: "string \<Rightarrow> py_error + ustr" where
  "binary_to_unicode binary =
     for_loop (range_step (length binary) 8) (decode_body binary) []"

partial_function (option) stretch_key :: "string \<Rightarrow> nat \<Rightarrow> string option" where
  \<comment> \<open>\<open>while len(key) < n: key += key\<close>; \<open>None\<close> when the loop never exits\<close>
  "stretch_key key n = (if length key < n then stretch_key (key @ key) n else Some key)"

definition xor_body :: "string \<Rightarrow> string \<Rightarrow> string \<Rightarrow> nat \<Rightarrow> py_error + string" where
  \<comment> \<open>\<open>out += str(int(text[i]) ^ int(key[i]))\<close>\<close>
  "xor_body text key out i =
     (case getitem text i of Inl e \<Rightarrow> Inl e | Inr t \<Rightarrow>
      case py_int t of Inl e \<Rightarrow> Inl e | Inr a \<Rightarrow>
      case getitem key i of Inl e \<Rightarrow> Inl e | Inr k \<Rightarrow>
      case py_int k of Inl e \<Rightarrow> Inl e | Inr b \<Rightarrow>
      Inr (out @ str (a XOR b)))"

definition encrypt :: "ustr \<Rightarrow> string \<Rightarrow> (py_error + ustr) option" where
  "encrypt text key =
     (let text' = unicode_to_binary text in
      case stretch_key key (length text') of
        None \<Rightarrow> None
      | Some key' \<Rightarrow>
          Some (case for_loop [0..<length text'] (xor_body text' key') [] of
                  Inl e \<Rightarrow> Inl e
                | Inr encrypted_text \<Rightarrow> binary_to_unicode encrypted_text))"

definition decrypt :: "ustr \<Rightarrow> string \<Rightarrow> (py_error + ustr) option" where
  "decrypt text key =
     (let binary_encrypted_text = unicode_to_binary text in
      case stretch_key key (length binary_encrypted_text) of
        None \<Rightarrow> None
      | Some key' \<Rightarrow>
          Some (case for_loop [0..<length binary_encrypted_text]
                       (xor_body binary_encrypted_text key') [] of
                  Inl e \<Rightarrow> Inl e
                | Inr decrypted_text \<Rightarrow> binary_to_unicode decrypted_text))"

section \<open>The key generator\<close>

text \<open>
  \<open>gen_bin_key\<close> draws its randomness from two library generators: Python's \<open>random\<close>
  (three calls of \<open>choices\<close>) and the simulator's sampler. Both are inputs of the model.
  \<open>py_random\<close> is the stream of raw draws of \<open>random\<close>, each reduced to an index into the
  population; \<open>sim_random q\<close> is the uniform sample the simulator compares with the
  outcome probabilities when it measures qubit \<open>q\<close>, a real number in \<open>[0, 1)\<close>.
\<close>

record entropy =
  py_random :: "nat \<Rightarrow> nat"
  sim_random :: "nat \<Rightarrow> real"

definition choices :: "'a list \<Rightarrow> nat \<Rightarrow> (nat \<Rightarrow> nat) \<Rightarrow> nat \<Rightarrow> 'a list" where
  \<comment> \<open>\<open>choices(population, k=k)\<close>, reading the draws \<open>pos, ..., pos + k - 1\<close> of the stream\<close>
  "choices population k rng pos =
     map (\<lambda>i. population ! (rng (pos + i) mod length population)) [0..<k]"

definition lookup :: "('k \<Rightarrow> 'v option) \<Rightarrow> 'k \<Rightarrow> py_error + 'v" where
  \<comment> \<open>\<open>d[k]\<close> on a dict\<close>
  "lookup d k = (case d k of None \<Rightarrow> Inl KeyError | Some v \<Rightarrow> Inr v)"

subsection \<open>The simulated circuit\<close>

text \<open>
  The circuit library is not part of the program; its gates and its simulator are modelled
  by their mathematical meaning. The circuit only ever holds one-qubit gates with real
  matrices, so every qubit stays in a state of its own with real amplitudes, starting
  from \<open>|0>\<close>; amplitudes are exact reals.
\<close>

datatype basis = Z | X

datatype gate = cirq_I | cirq_X | cirq_H

type_synonym qstate = "real \<times> real"

definition ket0 :: qstate where
  "ket0 = (1, 0)"

fun apply_gate :: "gate \<Rightarrow> qstate \<Rightarrow> qstate" where
  "apply_gate cirq_I (a, b) = (a, b)"
| "apply_gate cirq_X (a, b) = (b, a)"
| "apply_gate cirq_H (a, b) = ((a + b) / sqrt 2, (a - b) / sqrt 2)"

datatype operation = Gate gate nat | Measure "nat list"

type_synonym circuit = "operation list"

definition gates_on :: "circuit \<Rightarrow> nat \<Rightarrow> gate list" where
  \<comment> \<open>the gates applied to qubit \<open>q\<close>, in circuit order\<close>
  "gates_on c q =
     concat (map (\<lambda>op. case op of Gate g q' \<Rightarrow> (if q' = q then [g] else [])
                                | Measure qs \<Rightarrow> []) c)"

definition final_state :: "circuit \<Rightarrow> nat \<Rightarrow> qstate" where
  "final_state c q = foldl (\<lambda>s g. apply_gate g s) ket0 (gates_on c q)"

definition probability :: "qstate \<Rightarrow> nat \<Rightarrow> real" where
  \<comment> \<open>the probability that a measurement in the computational basis yields \<open>outcome\<close>\<close>
  "probability s outcome = (if outcome = 0 then (fst s)\<^sup>2 else if outcome = 1 then (snd s)\<^sup>2 else 0)"

definition measure_qubit :: "qstate \<Rightarrow> real \<Rightarrow> nat" where
  \<comment> \<open>sampling: outcome 0 when the uniform sample falls below its probability\<close>
  "measure_qubit s u = (if u < probability s 0 then 0 else 1)"

definition measured_qubits :: "circuit \<Rightarrow> nat list" where
  "measured_qubits c =
     concat (map (\<lambda>op. case op of Gate g q \<Rightarrow> [] | Measure qs \<Rightarrow> qs) c)"

definition run :: "circuit \<Rightarrow> (nat \<Rightarrow> real) \<Rightarrow> nat list" where
  \<comment> \<open>\<open>sim.run(circuit).measurements[key][0]\<close>: one outcome per measured qubit\<close>
  "run c u = map (\<lambda>q. measure_qubit (final_state c q) (u q)) (measured_qubits c)"

subsection \<open>The stages of \<open>gen_bin_key\<close>\<close>

text \<open>
  The loop variable the source calls \<open>bit\<close> is \<open>pos\<close> here; qubit \<open>q<i>\<close> is the index
  \<open>i\<close>. The source is specified for a positive \<open>min_key_length\<close>; what the library does
  with a measurement of no qubits is not modelled.
\<close>

definition encode_gates :: "nat \<Rightarrow> gate option" where
  "encode_gates = [0 \<mapsto> cirq_I, 1 \<mapsto> cirq_X]"

definition basis_gates :: "basis \<Rightarrow> gate" where
  "basis_gates b = (case b of X \<Rightarrow> cirq_H | Z \<Rightarrow> cirq_I)"

definition encoder_body ::
  "nat list \<Rightarrow> basis list \<Rightarrow> nat list \<Rightarrow> circuit \<Rightarrow> nat \<Rightarrow> py_error + circuit" where
  "encoder_body encoder_key encoder_bases qubits encoder_circuit pos =
     (case getitem encoder_key pos of Inl e \<Rightarrow> Inl e | Inr encode_value \<Rightarrow>
      case lookup encode_gates encode_value of Inl e \<Rightarrow> Inl e | Inr encode_gate \<Rightarrow>
      case getitem encoder_bases pos of Inl e \<Rightarrow> Inl e | Inr basis_value \<Rightarrow>
      case getitem qubits pos of Inl e \<Rightarrow> Inl e | Inr qubit \<Rightarrow>
      Inr (encoder_circuit @ [Gate encode_gate qubit, Gate (basis_gates basis_value) qubit]))"

definition decoder_body ::
  "basis list \<Rightarrow> nat list \<Rightarrow> circuit \<Rightarrow> nat \<Rightarrow> py_error + circuit" where
  "decoder_body decoder_bases qubits decoder_circuit pos =
     (case getitem decoder_bases pos of Inl e \<Rightarrow> Inl e | Inr basis_value \<Rightarrow>
      case getitem qubits pos of Inl e \<Rightarrow> Inl e | Inr qubit \<Rightarrow>
      Inr (decoder_circuit @ [Gate (basis_gates basis_value) qubit]))"

definition bb84_circuit ::
  "nat \<Rightarrow> nat list \<Rightarrow> basis list \<Rightarrow> basis list \<Rightarrow> py_error + circuit" where
  \<comment> \<open>the two construction loops and \<open>bb84_circuit = encoder_circuit + decoder_circuit\<close>\<close>
  "bb84_circuit num_bits encoder_key encoder_bases decoder_bases =
     (let qubits = [0..<num_bits] in
      case for_loop [0..<num_bits] (encoder_body encoder_key encoder_bases qubits) [] of
        Inl e \<Rightarrow> Inl e
      | Inr encoder_circuit \<Rightarrow>
          (case for_loop [0..<num_bits] (decoder_body decoder_bases qubits) [] of
             Inl e \<Rightarrow> Inl e
           | Inr decoder_gates \<Rightarrow>
               (let decoder_circuit = decoder_gates @ [Measure qubits]
                in Inr (encoder_circuit @ decoder_circuit))))"

definition bb84_run ::
  "nat \<Rightarrow> nat list \<Rightarrow> basis list \<Rightarrow> basis list \<Rightarrow> (nat \<Rightarrow> real) \<Rightarrow> py_error + nat list" where
  \<comment> \<open>simulating the circuit: \<open>decoder_key\<close>\<close>
  "bb84_run num_bits encoder_key encoder_bases decoder_bases u =
     (case bb84_circuit num_bits encoder_key encoder_bases decoder_bases of
        Inl e \<Rightarrow> Inl e
      | Inr circuit \<Rightarrow> Inr (run circuit u))"

definition sift_body ::
  "nat list \<Rightarrow> basis list \<Rightarrow> nat list \<Rightarrow> basis list \<Rightarrow>
   nat list \<times> nat list \<Rightarrow> nat \<Rightarrow> py_error + nat list \<times> nat list" where
  "sift_body encoder_key encoder_bases decoder_key decoder_bases finals pos =
     (case getitem encoder_bases pos of Inl e \<Rightarrow> Inl e | Inr a \<Rightarrow>
      case getitem decoder_bases pos of Inl e \<Rightarrow> Inl e | Inr b \<Rightarrow>
      if a = b then
        (case getitem encoder_key pos of Inl e \<Rightarrow> Inl e | Inr x \<Rightarrow>
         case getitem decoder_key pos of Inl e \<Rightarrow> Inl e | Inr y \<Rightarrow>
         Inr (fst finals @ [x], snd finals @ [y]))
      else Inr finals)"

definition sift ::
  "nat \<Rightarrow> nat list \<Rightarrow> basis list \<Rightarrow> nat list \<Rightarrow> basis list \<Rightarrow> py_error + nat list \<times> nat list" where
  \<comment> \<open>the comparison loop: \<open>(final_encoder_key, final_decoder_key)\<close>\<close>
  "sift num_bits encoder_key encoder_bases decoder_key decoder_bases =
     for_loop [0..<num_bits] (sift_body encoder_key encoder_bases decoder_key decoder_bases) ([], [])"

definition num_bits_to_compare :: "nat list \<Rightarrow> nat" where
  \<comment> \<open>\<open>int(len(final_encoder_key) * .5)\<close>, the product taken exactly\<close>
  "num_bits_to_compare final_encoder_key = nat \<lfloor>real (length final_encoder_key) * 0.5\<rfloor>"

definition join_bits :: "nat list \<Rightarrow> string" where
  \<comment> \<open>\<open>"".join(str(bit) for bit in bits)\<close>\<close>
  "join_bits bits = concat (map str bits)"

definition eavesdropper_check :: "nat list \<Rightarrow> nat list \<Rightarrow> string" where
  "eavesdropper_check final_encoder_key final_decoder_key =
     (let n = num_bits_to_compare final_encoder_key in
      if take n final_encoder_key = take n final_decoder_key
      then join_bits (drop n final_encoder_key)
      else ''There was an eavesdropper!'')"

definition sifted_keys :: "nat \<Rightarrow> entropy \<Rightarrow> py_error + nat list \<times> nat list" where
  \<comment> \<open>\<open>gen_bin_key\<close> up to the end of the comparison loop\<close>
  "sifted_keys min_key_length rnd =
     (let num_bits = min_key_length * 4;
          encoder_key = choices [0, 1] num_bits (py_random rnd) 0;
          encoder_bases = choices [Z, X] num_bits (py_random rnd) num_bits;
          decoder_bases = choices [Z, X] num_bits (py_random rnd) (2 * num_bits)
      in case bb84_run num_bits encoder_key encoder_bases decoder_bases (sim_random rnd) of
           Inl e \<Rightarrow> Inl e
         | Inr decoder_key \<Rightarrow> sift num_bits encoder_key encoder_bases decoder_key decoder_bases)"

definition gen_bin_key :: "nat \<Rightarrow> entropy \<Rightarrow> py_error + string" where
  "gen_bin_key min_key_length rnd =
     (case sifted_keys min_key_length rnd of
        Inl e \<Rightarrow> Inl e
      | Inr (final_encoder_key, final_decoder_key) \<Rightarrow>
          Inr (eavesdropper_check final_encoder_key final_decoder_key))"

section \<open>Auxiliary notions\<close>

subsection \<open>What the XOR loop computes on binary digits\<close>

definition xor_char :: "char \<Rightarrow> char \<Rightarrow> char" where
  "xor_char a b = (if a = b then CHR ''0'' else CHR ''1'')"

definition xor_strings :: "string \<Rightarrow> string \<Rightarrow> string" where
  "xor_strings text key = map (\<lambda>i. xor_char (text ! i) (key ! i)) [0..<length text]"

subsection \<open>What the construction loops, the simulator and the sifting loop compute\<close>

definition enc_gate :: "nat \<Rightarrow> gate" where
  "enc_gate v = (if v = 0 then cirq_I else cirq_X)"

definition encoder_ops :: "nat list \<Rightarrow> basis list \<Rightarrow> nat \<Rightarrow> circuit" where
  "encoder_ops ek eb i = [Gate (enc_gate (ek ! i)) i, Gate (basis_gates (eb ! i)) i]"

definition decoder_ops :: "basis list \<Rightarrow> nat \<Rightarrow> circuit" where
  "decoder_ops db i = [Gate (basis_gates (db ! i)) i]"

definition qubit_state :: "nat \<Rightarrow> basis \<Rightarrow> basis \<Rightarrow> qstate" where
  "qubit_state v a b = apply_gate (basis_gates b) (apply_gate (basis_gates a) (apply_gate (enc_gate v) ket0))"

definition built_circuit :: "nat \<Rightarrow> nat list \<Rightarrow> basis list \<Rightarrow> basis list \<Rightarrow> circuit" where
  "built_circuit n ek eb db =
     concat (map (encoder_ops ek eb) [0..<n]) @ concat (map (decoder_ops db) [0..<n]) @ [Measure [0..<n]]"

definition kept_positions :: "nat \<Rightarrow> basis list \<Rightarrow> basis list \<Rightarrow> nat list" where
  "kept_positions n eb db = filter (\<lambda>i. eb ! i = db ! i) [0..<n]"

subsection \<open>Concrete random draws\<close>

text \<open>
  With \<open>all_zero_entropy\<close> every call of \<open>choices\<close> picks the first element of its
  population: all key bits are 0 and all bases are \<open>Z\<close>. With \<open>one_match_entropy\<close> the
  decoder's bases are \<open>Z, X, X, X\<close> against the encoder's \<open>Z, Z, Z, Z\<close> for
  \<open>min_key_length = 1\<close>.
\<close>

definition all_zero_entropy :: entropy where
  "all_zero_entropy = \<lparr>py_random = (\<lambda>i. 0), sim_random = (\<lambda>q. 0)\<rparr>"

definition one_match_entropy :: entropy where
  "one_match_entropy = \<lparr>py_random = (\<lambda>i. if 9 \<le> i then 1 else 0), sim_random = (\<lambda>q. 0)\<rparr>"

definition half_samples :: "nat \<Rightarrow> real" where
  "half_samples q = 1 / 2"

section \<open>Facts about the cipher\<close>

lemma for_loop_append:
  "for_loop (xs @ ys) body s =
     (case for_loop xs body s of Inl e \<Rightarrow> Inl e | Inr s' \<Rightarrow> for_loop ys body s')"
  by (induction xs arbitrary: s) (auto split: sum.splits)

lemma digit_char_bit: "d < 2 \<Longrightarrow> digit_char d = (if d = 1 then CHR ''1'' else CHR ''0'')"
  by (cases d) (auto simp: digit_char_def)

lemma bin_nonempty: "bin n \<noteq> []"
  by (subst bin.simps) simp

lemma bin_binary: "set (bin n) \<subseteq> {CHR ''0'', CHR ''1''}"
proof (induction n rule: bin.induct)
  case (1 n)
  show ?case
  proof (cases "n < 2")
    case True
    then show ?thesis by (subst bin.simps) (simp add: digit_char_bit)
  next
    case False
    then have "set (bin (n div 2)) \<subseteq> {CHR ''0'', CHR ''1''}" using 1 by simp
    then show ?thesis using False by (subst bin.simps) (simp add: digit_char_bit)
  qed
qed

lemma base2_value_Nil: "base2_value [] = 0"
  by (simp add: base2_value_def)

lemma base2_value_snoc:
  "base2_value (s @ [c]) = 2 * base2_value s + (if c = CHR ''1'' then 1 else 0)"
  by (simp add: base2_value_def)

lemma base2_value_bin: "base2_value (bin n) = n"
proof (induction n rule: bin.induct)
  case (1 n)
  show ?case
  proof (cases "n < 2")
    case True
    then show ?thesis
      by (subst bin.simps) (auto simp: digit_char_bit base2_value_def)
  next
    case False
    then have "base2_value (bin (n div 2)) = n div 2" using 1 by simp
    moreover have "n mod 2 < 2" by simp
    moreover have "2 * (n div 2) + n mod 2 = n" by simp
    ultimately show ?thesis using False
      by (subst bin.simps) (simp add: base2_value_snoc digit_char_bit, presburger)
  qed
qed

lemma base2_value_zeros: "base2_value (replicate k CHR ''0'' @ s) = base2_value s"
proof -
  have "foldl (\<lambda>v c. 2 * v + (if c = CHR ''1'' then 1 else 0)) (0::nat) (replicate k CHR ''0'') = 0"
    by (induction k) simp_all
  then show ?thesis by (simp add: base2_value_def)
qed

lemma length_bin_le: "n < 2 ^ k \<Longrightarrow> 0 < k \<Longrightarrow> length (bin n) \<le> k"
proof (induction n arbitrary: k rule: bin.induct)
  case (1 n)
  show ?case
  proof (cases "n < 2")
    case True
    then show ?thesis using 1(3) by (subst bin.simps) simp
  next
    case False
    have "k \<noteq> 1" using False 1(2) by auto
    then obtain k' where k: "k = Suc k'" "0 < k'" using 1(3)
      by (cases k) auto
    then have "n div 2 < 2 ^ k'" using 1(2) by auto
    then have "length (bin (n div 2)) \<le> k'" using 1(1) False k by simp
    then show ?thesis using False k by (subst bin.simps) simp
  qed
qed

lemma length_bin_gt: "2 ^ k \<le> n \<Longrightarrow> k < length (bin n)"
proof (induction n arbitrary: k rule: bin.induct)
  case (1 n)
  show ?case
  proof (cases "n < 2")
    case True
    have "k = 0"
    proof (rule ccontr)
      assume "k \<noteq> 0"
      then have "(2::nat) ^ 1 \<le> 2 ^ k" by (intro power_increasing) auto
      then show False using True 1(2) by simp
    qed
    then show ?thesis by (subst bin.simps) simp
  next
    case False
    show ?thesis
    proof (cases k)
      case 0
      then show ?thesis using bin_nonempty[of n] by (cases "bin n") auto
    next
      case (Suc k')
      then have "2 ^ k' \<le> n div 2" using 1(2) by auto
      then have "k' < length (bin (n div 2))" using 1(1) False by simp
      then show ?thesis using False Suc by (subst bin.simps) simp
    qed
  qed
qed

lemma base2_value_zero_iff:
  "set s \<subseteq> {CHR ''0'', CHR ''1''} \<Longrightarrow> base2_value s = 0 \<Longrightarrow> s = replicate (length s) CHR ''0''"
proof (induction s rule: rev_induct)
  case Nil
  then show ?case by simp
next
  case (snoc c s)
  then have "base2_value s = 0" "c \<noteq> CHR ''1''"
    by (auto simp: base2_value_snoc split: if_splits)
  then have "s = replicate (length s) CHR ''0''" "c = CHR ''0''" using snoc by auto
  then have "s @ [c] = replicate (length s) CHR ''0'' @ [CHR ''0'']" by simp
  then show ?case by (simp add: replicate_append_same)
qed

lemma base2_value_lt: "base2_value s < 2 ^ length s"
proof (induction s rule: rev_induct)
  case Nil
  then show ?case by (simp add: base2_value_Nil)
next
  case (snoc c s)
  then show ?case by (auto simp: base2_value_snoc)
qed

lemma pad_bin_value:
  "set s \<subseteq> {CHR ''0'', CHR ''1''} \<Longrightarrow> s \<noteq> [] \<Longrightarrow>
   replicate (length s - length (bin (base2_value s))) CHR ''0'' @ bin (base2_value s) = s"
proof (induction s rule: rev_induct)
  case Nil
  then show ?case by simp
next
  case (snoc c s)
  let ?v = "base2_value s"
  let ?b = "if c = CHR ''1'' then 1 else (0::nat)"
  have c: "c = digit_char ?b" using snoc(2) by (auto simp: digit_char_bit)
  have bs: "set s \<subseteq> {CHR ''0'', CHR ''1''}" using snoc(2) by simp
  show ?case
  proof (cases "?v = 0")
    case True
    then have s: "s = replicate (length s) CHR ''0''" using base2_value_zero_iff[OF bs] by simp
    have "bin (base2_value (s @ [c])) = [c]"
      using True c by (subst bin.simps) (simp add: base2_value_snoc)
    then show ?thesis using s by simp
  next
    case False
    then have ne: "s \<noteq> []" by (auto simp: base2_value_Nil)
    have ih: "replicate (length s - length (bin ?v)) CHR ''0'' @ bin ?v = s"
      using snoc(1) bs ne by simp
    have le: "length (bin ?v) \<le> length s"
      using length_bin_le[OF base2_value_lt[of s]] ne by simp
    have "bin (base2_value (s @ [c])) = bin ?v @ [c]"
    proof -
      have "\<not> (2 * ?v + ?b < 2)" using False by simp
      moreover have "(2 * ?v + ?b) div 2 = ?v" "(2 * ?v + ?b) mod 2 = ?b" by auto
      ultimately show ?thesis using c
        by (subst bin.simps) (simp only: base2_value_snoc if_False)
    qed
    then show ?thesis using ih le by (simp add: Suc_diff_le)
  qed
qed

lemma format_08b_value:
  "set s \<subseteq> {CHR ''0'', CHR ''1''} \<Longrightarrow> length s = 8 \<Longrightarrow> format_08b (base2_value s) = s"
proof -
  assume a: "set s \<subseteq> {CHR ''0'', CHR ''1''}" "length s = 8"
  then have "s \<noteq> []" by auto
  then show ?thesis using pad_bin_value[OF a(1)] a(2) by (simp add: format_08b_def)
qed

lemma format_08b_length: "n < 256 \<Longrightarrow> length (format_08b n) = 8"
  using length_bin_le[of n 8] by (simp add: format_08b_def)

lemma format_08b_binary: "set (format_08b n) \<subseteq> {CHR ''0'', CHR ''1''}"
  using bin_binary[of n] by (auto simp: format_08b_def)

lemma base2_value_format_08b: "base2_value (format_08b n) = n"
  by (simp add: format_08b_def base2_value_zeros base2_value_bin)

lemma range_step_8: "range_step (8 * m) 8 = map (\<lambda>j. j * 8) [0..<m]"
  by (simp add: range_step_def)

lemma concat_chunks:
  "k * 8 \<le> length s \<Longrightarrow> concat (map (\<lambda>j. slice s (j * 8) (j * 8 + 8)) [0..<k]) = take (k * 8) s"
proof (induction k)
  case 0
  then show ?case by simp
next
  case (Suc k)
  then have "concat (map (\<lambda>j. slice s (j * 8) (j * 8 + 8)) [0..<k]) = take (k * 8) s" by simp
  moreover have "take (Suc k * 8) s = take (k * 8) s @ take 8 (drop (k * 8) s)"
    using take_add[of "k * 8" 8 s] by (simp add: add.commute)
  ultimately show ?case by (simp add: slice_def del: mult_Suc)
qed

lemma slice_concat_blocks:
  "\<forall>b \<in> set bs. length b = 8 \<Longrightarrow> j < length bs \<Longrightarrow>
   slice (concat bs) (j * 8) (j * 8 + 8) = bs ! j"
proof (induction bs arbitrary: j)
  case Nil
  then show ?case by simp
next
  case (Cons b bs)
  show ?case
  proof (cases j)
    case 0
    then show ?thesis using Cons(2) by (simp add: slice_def)
  next
    case (Suc j')
    then have "slice (concat bs) (j' * 8) (j' * 8 + 8) = bs ! j'" using Cons by simp
    then show ?thesis using Cons(2) Suc by (simp add: slice_def)
  qed
qed

lemma decode_loop:
  assumes bin: "set s \<subseteq> {CHR ''0'', CHR ''1''}"
  shows "k * 8 \<le> length s \<Longrightarrow>
    for_loop (map (\<lambda>j. j * 8) [0..<k]) (decode_body s) [] =
      Inr (map (\<lambda>j. base2_value (slice s (j * 8) (j * 8 + 8))) [0..<k])"
proof (induction k)
  case 0
  then show ?case by simp
next
  case (Suc k)
  let ?c = "slice s (k * 8) (k * 8 + 8)"
  have len: "length ?c = 8" using Suc(2) by (simp add: slice_def)
  have sub: "set ?c \<subseteq> {CHR ''0'', CHR ''1''}"
    using bin by (auto simp: slice_def dest!: in_set_takeD in_set_dropD)
  have ne: "?c \<noteq> []" using len by auto
  have "base2_value ?c < 2 ^ 8" using base2_value_lt[of ?c] len by simp
  then have chr: "chr (base2_value ?c) = Inr (base2_value ?c)" by (simp add: chr_def)
  have "int_base2 ?c = Inr (base2_value ?c)" using sub ne by (simp add: int_base2_def)
  then have step: "decode_body s out (k * 8) = Inr (out @ [base2_value ?c])" for out
    using chr by (simp add: decode_body_def)
  show ?case using Suc step by (simp add: for_loop_append)
qed

lemma binary_to_unicode_chunks:
  assumes "set s \<subseteq> {CHR ''0'', CHR ''1''}" "length s = 8 * m"
  shows "binary_to_unicode s = Inr (map (\<lambda>j. base2_value (slice s (j * 8) (j * 8 + 8))) [0..<m])"
proof -
  have "binary_to_unicode s = for_loop (map (\<lambda>j. j * 8) [0..<m]) (decode_body s) []"
    using assms(2) by (simp add: binary_to_unicode_def range_step_8)
  then show ?thesis using decode_loop[OF assms(1), of m] assms(2) by simp
qed

lemma unicode_to_binary_length:
  "\<forall>c \<in> set cs. c < 256 \<Longrightarrow> length (unicode_to_binary cs) = 8 * length cs"
  by (induction cs) (simp_all add: unicode_to_binary_def format_08b_length)

lemma unicode_to_binary_binary: "set (unicode_to_binary cs) \<subseteq> {CHR ''0'', CHR ''1''}"
  using format_08b_binary by (auto simp: unicode_to_binary_def)

lemma binary_to_unicode_inverse:
  assumes "\<forall>c \<in> set cs. c < 256"
  shows "binary_to_unicode (unicode_to_binary cs) = Inr cs"
proof -
  let ?bs = "map format_08b cs"
  have blocks: "\<forall>b \<in> set ?bs. length b = 8" using assms by (auto simp: format_08b_length)
  have "binary_to_unicode (unicode_to_binary cs) =
        Inr (map (\<lambda>j. base2_value (slice (unicode_to_binary cs) (j * 8) (j * 8 + 8))) [0..<length cs])"
    using binary_to_unicode_chunks[OF unicode_to_binary_binary unicode_to_binary_length[OF assms]] .
  also have "map (\<lambda>j. base2_value (slice (unicode_to_binary cs) (j * 8) (j * 8 + 8))) [0..<length cs]
           = map (\<lambda>j. cs ! j) [0..<length cs]"
    using slice_concat_blocks[OF blocks]
    by (auto simp: unicode_to_binary_def base2_value_format_08b)
  also have "\<dots> = cs" by (simp add: map_nth)
  finally show ?thesis .
qed

lemma unicode_to_binary_inverse:
  assumes "set s \<subseteq> {CHR ''0'', CHR ''1''}" "length s = 8 * m"
  shows "unicode_to_binary (map (\<lambda>j. base2_value (slice s (j * 8) (j * 8 + 8))) [0..<m]) = s"
proof -
  have "format_08b (base2_value (slice s (j * 8) (j * 8 + 8))) = slice s (j * 8) (j * 8 + 8)"
    if "j < m" for j
  proof (rule format_08b_value)
    show "set (slice s (j * 8) (j * 8 + 8)) \<subseteq> {CHR ''0'', CHR ''1''}"
      using assms(1) by (auto simp: slice_def dest!: in_set_takeD in_set_dropD)
    show "length (slice s (j * 8) (j * 8 + 8)) = 8" using that assms(2) by (simp add: slice_def)
  qed
  then have "map (\<lambda>j. format_08b (base2_value (slice s (j * 8) (j * 8 + 8)))) [0..<m]
           = map (\<lambda>j. slice s (j * 8) (j * 8 + 8)) [0..<m]"
    by (intro map_cong) auto
  then have "unicode_to_binary (map (\<lambda>j. base2_value (slice s (j * 8) (j * 8 + 8))) [0..<m])
           = concat (map (\<lambda>j. slice s (j * 8) (j * 8 + 8)) [0..<m])"
    unfolding unicode_to_binary_def map_map comp_def by (rule arg_cong)
  also have "\<dots> = take (m * 8) s" using concat_chunks[of m s] assms(2) by simp
  finally show ?thesis using assms(2) by simp
qed

lemma stretch_key_diverges_aux:
  assumes "stretch_key key n = Some k"
  shows "key \<noteq> [] \<or> n = 0"
proof (rule stretch_key.raw_induct[where P = "\<lambda>key n k. key \<noteq> [] \<or> n = 0", OF _ assms])
  fix f :: "string \<Rightarrow> nat \<Rightarrow> string option" and key n keya
  assume ih: "\<And>n b y. f n b = Some y \<Longrightarrow> n \<noteq> [] \<or> b = 0"
    and st: "(if length key < n then f (key @ key) n else Some key) = Some keya"
  show "key \<noteq> [] \<or> n = 0"
  proof (cases "length key < n")
    case True
    then have "f (key @ key) n = Some keya" using st by simp
    then show ?thesis using ih[of "key @ key" n keya] by simp
  next
    case False
    then show ?thesis by (cases key) auto
  qed
qed

lemma stretch_key_empty: "0 < n \<Longrightarrow> stretch_key [] n = None"
  using stretch_key_diverges_aux[of "[]" n] by (cases "stretch_key [] n") auto

lemma stretch_key_returns:
  "key \<noteq> [] \<Longrightarrow> \<exists>k. stretch_key key n = Some k \<and> n \<le> length k \<and> set k = set key"
proof (induction "n - length key" arbitrary: key rule: less_induct)
  case less
  show ?case
  proof (cases "length key < n")
    case True
    have "length key \<noteq> 0" using less(2) by simp
    then have "n - (length key + length key) < n - length key" using True by linarith
    then have "n - length (key @ key) < n - length key" by simp
    then obtain k where "stretch_key (key @ key) n = Some k" "n \<le> length k" "set k = set (key @ key)"
      using less(1)[of "key @ key"] less(2) by auto
    then show ?thesis using True by (subst stretch_key.simps) simp
  next
    case False
    then show ?thesis by (subst stretch_key.simps) simp
  qed
qed

lemma stretch_key_no_loop: "n \<le> length key \<Longrightarrow> stretch_key key n = Some key"
  by (subst stretch_key.simps) simp

lemma str_digit: "n < 10 \<Longrightarrow> str n = [digit_char n]"
  by (subst str.simps) simp

lemma py_int_binary: "py_int CHR ''0'' = Inr 0" "py_int CHR ''1'' = Inr 1"
  by (simp_all add: py_int_def)

lemma str_xor_binary: "str 0 = ''0''" "str (Suc 0) = ''1''"
  by (simp_all add: str_digit digit_char_def)

lemma xor_body_binary:
  assumes "i < length text" "i < length key"
    "text ! i \<in> {CHR ''0'', CHR ''1''}" "key ! i \<in> {CHR ''0'', CHR ''1''}"
  shows "xor_body text key out i = Inr (out @ [xor_char (text ! i) (key ! i)])"
  using assms by (auto simp: xor_body_def getitem_def py_int_binary xor_char_def str_xor_binary)

lemma xor_loop_binary:
  assumes "set text \<subseteq> {CHR ''0'', CHR ''1''}" "set key \<subseteq> {CHR ''0'', CHR ''1''}"
    "length text \<le> length key"
  shows "n \<le> length text \<Longrightarrow>
    for_loop [0..<n] (xor_body text key) [] = Inr (map (\<lambda>i. xor_char (text ! i) (key ! i)) [0..<n])"
proof (induction n)
  case 0
  then show ?case by simp
next
  case (Suc n)
  have "n < length text" "n < length key" using assms(3) Suc(2) by simp_all
  then have "text ! n \<in> set text" "key ! n \<in> set key" by simp_all
  then have "text ! n \<in> {CHR ''0'', CHR ''1''}" "key ! n \<in> {CHR ''0'', CHR ''1''}"
    using assms(1,2) by blast+
  then have "xor_body text key out n = Inr (out @ [xor_char (text ! n) (key ! n)])" for out
    using xor_body_binary[of n "text" key] assms(3) Suc(2) by simp
  then show ?case using Suc by (simp add: for_loop_append)
qed

lemma xor_strings_length: "length (xor_strings text key) = length text"
  by (simp add: xor_strings_def)

lemma xor_strings_binary: "set (xor_strings text key) \<subseteq> {CHR ''0'', CHR ''1''}"
proof -
  have "xor_char a b \<in> {CHR ''0'', CHR ''1''}" for a b by (simp add: xor_char_def)
  then show ?thesis unfolding xor_strings_def by auto
qed

lemma xor_char_involution:
  "a \<in> {CHR ''0'', CHR ''1''} \<Longrightarrow> b \<in> {CHR ''0'', CHR ''1''} \<Longrightarrow> xor_char (xor_char a b) b = a"
  by (auto simp: xor_char_def)

lemma xor_strings_nth: "i < length text \<Longrightarrow> xor_strings text key ! i = xor_char (text ! i) (key ! i)"
  by (simp add: xor_strings_def)

lemma xor_strings_involution:
  assumes "set text \<subseteq> {CHR ''0'', CHR ''1''}" "set key \<subseteq> {CHR ''0'', CHR ''1''}"
    "length text \<le> length key"
  shows "xor_strings (xor_strings text key) key = text"
proof (rule nth_equalityI)
  show "length (xor_strings (xor_strings text key) key) = length text"
    by (simp only: xor_strings_length)
next
  fix i assume "i < length (xor_strings (xor_strings text key) key)"
  then have i: "i < length text" by (simp only: xor_strings_length)
  then have k: "i < length key" using assms(3) by linarith
  have t: "text ! i \<in> {CHR ''0'', CHR ''1''}"
    using nth_mem[OF i] assms(1) by (rule subsetD[rotated])
  have key: "key ! i \<in> {CHR ''0'', CHR ''1''}"
    using nth_mem[OF k] assms(2) by (rule subsetD[rotated])
  have i': "i < length (xor_strings text key)" using i by (simp only: xor_strings_length)
  show "xor_strings (xor_strings text key) key ! i = text ! i"
    by (simp only: xor_strings_nth[OF i'] xor_strings_nth[OF i] xor_char_involution[OF t key])
qed

lemma cipher_pipeline:
  assumes key: "key \<noteq> []" "set key \<subseteq> {CHR ''0'', CHR ''1''}"
  shows "\<exists>key'. stretch_key key (length (unicode_to_binary text)) = Some key' \<and>
           length (unicode_to_binary text) \<le> length key' \<and>
           set key' \<subseteq> {CHR ''0'', CHR ''1''} \<and>
           encrypt text key = Some (binary_to_unicode (xor_strings (unicode_to_binary text) key')) \<and>
           decrypt text key = Some (binary_to_unicode (xor_strings (unicode_to_binary text) key'))"
proof -
  define t where "t = unicode_to_binary text"
  obtain key' where k: "stretch_key key (length t) = Some key'" and len: "length t \<le> length key'"
    and st: "set key' = set key"
    using stretch_key_returns[OF key(1)] by blast
  have kb: "set key' \<subseteq> {CHR ''0'', CHR ''1''}" using st key(2) by simp
  have tb: "set t \<subseteq> {CHR ''0'', CHR ''1''}" unfolding t_def by (rule unicode_to_binary_binary)
  have loop: "for_loop [0..<length t] (xor_body t key') [] = Inr (xor_strings t key')"
    using xor_loop_binary[OF tb kb len, of "length t"] by (simp add: xor_strings_def)
  have "encrypt text key = Some (binary_to_unicode (xor_strings t key'))"
    unfolding encrypt_def Let_def t_def[symmetric] by (simp add: k loop)
  moreover have "decrypt text key = Some (binary_to_unicode (xor_strings t key'))"
    unfolding decrypt_def Let_def t_def[symmetric] by (simp add: k loop)
  ultimately show ?thesis using k len kb unfolding t_def by blast
qed

lemma decode_loop_any:
  assumes bin: "set s \<subseteq> {CHR ''0'', CHR ''1''}"
  shows "k \<le> (length s + 7) div 8 \<Longrightarrow>
    for_loop (map (\<lambda>j. j * 8) [0..<k]) (decode_body s) [] =
      Inr (map (\<lambda>j. base2_value (slice s (j * 8) (j * 8 + 8))) [0..<k])"
proof (induction k)
  case 0
  then show ?case by simp
next
  case (Suc k)
  let ?c = "slice s (k * 8) (k * 8 + 8)"
  have lt: "k * 8 < length s" using Suc(2) by linarith
  have len: "length ?c \<le> 8" by (simp add: slice_def)
  have ne: "?c \<noteq> []" using lt by (simp add: slice_def)
  have sub: "set ?c \<subseteq> {CHR ''0'', CHR ''1''}"
    using bin by (auto simp: slice_def dest!: in_set_takeD in_set_dropD)
  have "(2::nat) ^ length ?c \<le> 2 ^ 8" using len by (intro power_increasing) simp_all
  then have "base2_value ?c < 2 ^ 8" using base2_value_lt[of ?c] by linarith
  then have chr: "chr (base2_value ?c) = Inr (base2_value ?c)" by (simp add: chr_def)
  have "int_base2 ?c = Inr (base2_value ?c)" using sub ne by (simp add: int_base2_def)
  then have step: "decode_body s out (k * 8) = Inr (out @ [base2_value ?c])" for out
    using chr by (simp add: decode_body_def)
  have "k \<le> (length s + 7) div 8" using Suc(2) by simp
  then show ?case using Suc(1) step by (simp add: for_loop_append)
qed

lemma binary_to_unicode_returns:
  assumes "set s \<subseteq> {CHR ''0'', CHR ''1''}"
  shows "\<exists>r. binary_to_unicode s = Inr r"
proof -
  have "range_step (length s) 8 = map (\<lambda>j. j * 8) [0..<(length s + 7) div 8]"
    by (simp add: range_step_def add.commute)
  then show ?thesis
    using decode_loop_any[OF assms, of "(length s + 7) div 8"]
    unfolding binary_to_unicode_def by simp
qed

lemma unicode_to_binary_nonempty: "text \<noteq> [] \<Longrightarrow> 0 < length (unicode_to_binary text)"
  using bin_nonempty by (cases "text") (auto simp: unicode_to_binary_def format_08b_def)

lemma encrypt_none_iff:
  "(encrypt text key = None) = (stretch_key key (length (unicode_to_binary text)) = None)"
  by (simp add: encrypt_def Let_def split: option.splits)

lemma decrypt_none_iff:
  "(decrypt text key = None) = (stretch_key key (length (unicode_to_binary text)) = None)"
  by (simp add: decrypt_def Let_def split: option.splits)

section \<open>Facts about the key generator\<close>

lemma choices_length: "length (choices population k rng pos) = k"
  by (simp add: choices_def)

lemma choices_nth:
  "i < k \<Longrightarrow> choices population k rng pos ! i = population ! (rng (pos + i) mod length population)"
  by (simp add: choices_def)

lemma choices_subset:
  assumes "population \<noteq> []"
  shows "set (choices population k rng pos) \<subseteq> set population"
proof -
  have "0 < length population" using assms by simp
  then have "population ! (j mod length population) \<in> set population" for j
    by (intro nth_mem mod_less_divisor)
  then show ?thesis unfolding choices_def by auto
qed

lemma choices_bits: "set (choices [0, 1] k rng pos) \<subseteq> {0, 1::nat}"
  using choices_subset[of "[0, 1::nat]" k rng pos] by simp

lemma lookup_encode_gates: "v \<in> {0, 1} \<Longrightarrow> lookup encode_gates v = Inr (enc_gate v)"
  by (auto simp: lookup_def encode_gates_def enc_gate_def)

lemma encoder_loop:
  assumes "length ek = n" "length eb = n" "set ek \<subseteq> {0, 1}"
  shows "k \<le> n \<Longrightarrow>
    for_loop [0..<k] (encoder_body ek eb [0..<n]) [] = Inr (concat (map (encoder_ops ek eb) [0..<k]))"
proof (induction k)
  case 0
  then show ?case by simp
next
  case (Suc k)
  have k: "k < n" using Suc(2) by simp
  then have "ek ! k \<in> set ek" using assms(1) by simp
  then have "ek ! k \<in> {0, 1}" using assms(3) by blast
  then have lk: "lookup encode_gates (ek ! k) = Inr (enc_gate (ek ! k))" by (rule lookup_encode_gates)
  have step: "encoder_body ek eb [0..<n] c k = Inr (c @ encoder_ops ek eb k)" for c
    using k assms(1,2) lk by (simp add: encoder_body_def getitem_def encoder_ops_def)
  have "k \<le> n" using k by simp
  then show ?case using Suc(1) step by (simp add: for_loop_append)
qed

lemma decoder_loop:
  assumes "length db = n"
  shows "k \<le> n \<Longrightarrow>
    for_loop [0..<k] (decoder_body db [0..<n]) [] = Inr (concat (map (decoder_ops db) [0..<k]))"
proof (induction k)
  case 0
  then show ?case by simp
next
  case (Suc k)
  have k: "k < n" using Suc(2) by simp
  have step: "decoder_body db [0..<n] c k = Inr (c @ decoder_ops db k)" for c
    using k assms by (simp add: decoder_body_def getitem_def decoder_ops_def)
  have "k \<le> n" using k by simp
  then show ?case using Suc(1) step by (simp add: for_loop_append)
qed

lemma gates_on_append: "gates_on (c1 @ c2) q = gates_on c1 q @ gates_on c2 q"
  by (simp add: gates_on_def)

lemma gates_on_Nil: "gates_on [] q = []"
  by (simp add: gates_on_def)

lemma measured_qubits_Nil: "measured_qubits [] = []"
  by (simp add: measured_qubits_def)

lemma gates_on_Measure: "gates_on [Measure qs] q = []"
  by (simp add: gates_on_def)

lemma gates_on_encoder_ops:
  "gates_on (encoder_ops ek eb i) q = (if i = q then [enc_gate (ek ! i), basis_gates (eb ! i)] else [])"
  by (simp add: gates_on_def encoder_ops_def)

lemma gates_on_decoder_ops:
  "gates_on (decoder_ops db i) q = (if i = q then [basis_gates (db ! i)] else [])"
  by (simp add: gates_on_def decoder_ops_def)

lemma gates_on_encoder:
  "gates_on (concat (map (encoder_ops ek eb) [0..<k])) q =
     (if q < k then [enc_gate (ek ! q), basis_gates (eb ! q)] else [])"
  by (induction k) (auto simp: gates_on_append gates_on_encoder_ops gates_on_Nil)

lemma gates_on_decoder:
  "gates_on (concat (map (decoder_ops db) [0..<k])) q =
     (if q < k then [basis_gates (db ! q)] else [])"
  by (induction k) (auto simp: gates_on_append gates_on_decoder_ops gates_on_Nil)

lemma measured_qubits_append: "measured_qubits (c1 @ c2) = measured_qubits c1 @ measured_qubits c2"
  by (simp add: measured_qubits_def)

lemma measured_qubits_encoder: "measured_qubits (concat (map (encoder_ops ek eb) [0..<k])) = []"
proof (induction k)
  case 0
  then show ?case by (simp add: measured_qubits_Nil)
next
  case (Suc k)
  have "measured_qubits (encoder_ops ek eb k) = []"
    by (simp add: measured_qubits_def encoder_ops_def)
  then show ?case using Suc by (simp add: measured_qubits_append)
qed

lemma measured_qubits_decoder: "measured_qubits (concat (map (decoder_ops db) [0..<k])) = []"
proof (induction k)
  case 0
  then show ?case by (simp add: measured_qubits_Nil)
next
  case (Suc k)
  have "measured_qubits (decoder_ops db k) = []"
    by (simp add: measured_qubits_def decoder_ops_def)
  then show ?case using Suc by (simp add: measured_qubits_append)
qed

lemma bb84_circuit_result:
  assumes "length ek = n" "length eb = n" "length db = n" "set ek \<subseteq> {0, 1}"
  shows "bb84_circuit n ek eb db = Inr (built_circuit n ek eb db)"
  using encoder_loop[OF assms(1,2,4), of n] decoder_loop[OF assms(3), of n]
  by (simp add: bb84_circuit_def Let_def built_circuit_def)

lemma built_circuit_measured: "measured_qubits (built_circuit n ek eb db) = [0..<n]"
proof -
  have "measured_qubits [Measure [0..<n]] = [0..<n]" by (simp add: measured_qubits_def)
  then show ?thesis
    by (simp add: built_circuit_def measured_qubits_append measured_qubits_encoder
        measured_qubits_decoder)
qed

lemma built_circuit_state:
  "q < n \<Longrightarrow> final_state (built_circuit n ek eb db) q = qubit_state (ek ! q) (eb ! q) (db ! q)"
  by (simp add: built_circuit_def final_state_def gates_on_append gates_on_encoder
      gates_on_decoder gates_on_Measure qubit_state_def)

lemma built_circuit_run:
  "run (built_circuit n ek eb db) u =
     map (\<lambda>q. measure_qubit (qubit_state (ek ! q) (eb ! q) (db ! q)) (u q)) [0..<n]"
  unfolding run_def built_circuit_measured using built_circuit_state[of _ n ek eb db] by simp

lemma bb84_run_result:
  assumes "length ek = n" "length eb = n" "length db = n" "set ek \<subseteq> {0, 1}"
  shows "bb84_run n ek eb db u =
     Inr (map (\<lambda>q. measure_qubit (qubit_state (ek ! q) (eb ! q) (db ! q)) (u q)) [0..<n])"
  by (simp add: bb84_run_def bb84_circuit_result[OF assms] built_circuit_run)

lemma sqrt2_sq: "sqrt 2 * sqrt 2 = (2::real)"
  by simp

lemma hadamard_twice: "apply_gate cirq_H (apply_gate cirq_H s) = s"
proof (cases s)
  case (Pair a b)
  have "((a + b) / sqrt 2 + (a - b) / sqrt 2) / sqrt 2 = a"
  proof -
    have "((a + b) / sqrt 2 + (a - b) / sqrt 2) / sqrt 2 = (2 * a) / (sqrt 2 * sqrt 2)"
      by (simp add: add_divide_distrib[symmetric])
    then show ?thesis by simp
  qed
  moreover have "((a + b) / sqrt 2 - (a - b) / sqrt 2) / sqrt 2 = b"
  proof -
    have "((a + b) / sqrt 2 - (a - b) / sqrt 2) / sqrt 2 = (2 * b) / (sqrt 2 * sqrt 2)"
      by (simp add: diff_divide_distrib[symmetric])
    then show ?thesis by simp
  qed
  ultimately show ?thesis using Pair by simp
qed

lemma basis_gate_twice: "apply_gate (basis_gates b) (apply_gate (basis_gates b) s) = s"
proof (cases b)
  case Z
  then show ?thesis by (cases s) (simp add: basis_gates_def)
next
  case X
  then show ?thesis by (simp add: basis_gates_def hadamard_twice)
qed

lemma qubit_state_match: "qubit_state v b b = apply_gate (enc_gate v) ket0"
  by (simp add: qubit_state_def basis_gate_twice)

lemma probability_match:
  "v \<in> {0, 1} \<Longrightarrow> probability (qubit_state v b b) v = 1"
  by (auto simp: qubit_state_match enc_gate_def ket0_def probability_def)

lemma measure_match:
  "v \<in> {0, 1} \<Longrightarrow> 0 \<le> u \<Longrightarrow> u < 1 \<Longrightarrow> measure_qubit (qubit_state v b b) u = v"
  by (auto simp: qubit_state_match enc_gate_def ket0_def probability_def measure_qubit_def)

lemma probability_mismatch:
  "v \<in> {0, 1} \<Longrightarrow> a \<noteq> b \<Longrightarrow> probability (qubit_state v a b) 0 = 1 / 2"
  by (cases a; cases b) (auto simp: qubit_state_def enc_gate_def basis_gates_def ket0_def probability_def power2_eq_square)

lemma sift_loop:
  assumes "length ek = n" "length eb = n" "length dk = n" "length db = n"
  shows "k \<le> n \<Longrightarrow>
    for_loop [0..<k] (sift_body ek eb dk db) ([], []) =
      Inr (map (\<lambda>i. ek ! i) (kept_positions k eb db), map (\<lambda>i. dk ! i) (kept_positions k eb db))"
proof (induction k)
  case 0
  then show ?case by (simp add: kept_positions_def)
next
  case (Suc k)
  have k: "k < n" using Suc(2) by simp
  have step: "sift_body ek eb dk db fs k =
      (if eb ! k = db ! k then Inr (fst fs @ [ek ! k], snd fs @ [dk ! k]) else Inr fs)" for fs
    using k assms by (simp add: sift_body_def getitem_def)
  have "k \<le> n" using k by simp
  then show ?case using Suc(1) step by (simp add: for_loop_append kept_positions_def)
qed

lemma sift_result:
  assumes "length ek = n" "length eb = n" "length dk = n" "length db = n"
  shows "sift n ek eb dk db =
      Inr (map (\<lambda>i. ek ! i) (kept_positions n eb db), map (\<lambda>i. dk ! i) (kept_positions n eb db))"
  unfolding sift_def using sift_loop[OF assms, of n] by simp

lemma kept_positions_set: "set (kept_positions n eb db) = {i. i < n \<and> eb ! i = db ! i}"
  by (auto simp: kept_positions_def)

lemma kept_positions_sorted: "sorted_wrt (<) (kept_positions n eb db)"
  unfolding kept_positions_def by (rule sorted_wrt_filter) (simp add: sorted_wrt_upt)

lemma kept_positions_length: "length (kept_positions n eb db) \<le> n"
  unfolding kept_positions_def using length_filter_le[of _ "[0..<n]"] by simp

lemma num_bits_to_compare_half: "num_bits_to_compare xs = length xs div 2"
proof -
  have "\<lfloor>real (length xs) * 0.5\<rfloor> = \<lfloor>real (length xs) / real 2\<rfloor>" by simp
  also have "\<dots> = int (length xs div 2)" by (simp only: floor_divide_of_nat_eq)
  finally show ?thesis by (simp add: num_bits_to_compare_def)
qed

lemma str_bit: "b \<in> {0, 1} \<Longrightarrow> str b = [if b = 1 then CHR ''1'' else CHR ''0'']"
  by (auto simp: str_digit digit_char_def)

lemma join_bits_length: "set bits \<subseteq> {0, 1} \<Longrightarrow> length (join_bits bits) = length bits"
  by (induction bits) (auto simp: join_bits_def str_bit)

lemma join_bits_binary: "set bits \<subseteq> {0, 1} \<Longrightarrow> set (join_bits bits) \<subseteq> {CHR ''0'', CHR ''1''}"
  by (induction bits) (auto simp: join_bits_def str_bit)

lemma eavesdropper_check_same:
  "eavesdropper_check fe fe = join_bits (drop (length fe div 2) fe)"
  by (simp add: eavesdropper_check_def Let_def num_bits_to_compare_half)

lemma sifted_keys_result:
  assumes "\<forall>q < m * 4. 0 \<le> sim_random rnd q \<and> sim_random rnd q < 1"
  shows "\<exists>fe. sifted_keys m rnd = Inr (fe, fe) \<and> set fe \<subseteq> {0, 1} \<and> length fe \<le> m * 4"
proof -
  define n where "n = m * 4"
  define ek where "ek = choices [0, 1::nat] n (py_random rnd) 0"
  define eb where "eb = choices [Z, X] n (py_random rnd) n"
  define db where "db = choices [Z, X] n (py_random rnd) (2 * n)"
  define dk where "dk = map (\<lambda>q. measure_qubit (qubit_state (ek ! q) (eb ! q) (db ! q)) (sim_random rnd q)) [0..<n]"
  define K where "K = kept_positions n eb db"
  have len: "length ek = n" "length eb = n" "length db = n" "length dk = n"
    by (simp_all add: ek_def eb_def db_def dk_def choices_length)
  have bits: "set ek \<subseteq> {0, 1}" unfolding ek_def by (rule choices_bits)
  have run: "bb84_run n ek eb db (sim_random rnd) = Inr dk"
    unfolding dk_def by (rule bb84_run_result[OF len(1,2,3) bits])
  have sift: "sift n ek eb dk db = Inr (map (\<lambda>i. ek ! i) K, map (\<lambda>i. dk ! i) K)"
    unfolding K_def by (rule sift_result[OF len(1,2,4,3)])
  have same: "dk ! i = ek ! i" if "i \<in> set K" for i
  proof -
    have i: "i < n" "eb ! i = db ! i" using that by (simp_all add: K_def kept_positions_set)
    have "ek ! i \<in> set ek" using i(1) len(1) by simp
    then have v: "ek ! i \<in> {0, 1}" using bits by blast
    have u: "0 \<le> sim_random rnd i" "sim_random rnd i < 1" using assms i(1) by (simp_all add: n_def)
    have "dk ! i = measure_qubit (qubit_state (ek ! i) (eb ! i) (db ! i)) (sim_random rnd i)"
      using i(1) by (simp add: dk_def)
    then show ?thesis using measure_match[OF v u] i(2) by simp
  qed
  then have eq: "map (\<lambda>i. dk ! i) K = map (\<lambda>i. ek ! i) K" by (intro map_cong) auto
  have "sifted_keys m rnd = Inr (map (\<lambda>i. ek ! i) K, map (\<lambda>i. ek ! i) K)"
    unfolding sifted_keys_def Let_def n_def[symmetric] ek_def[symmetric] eb_def[symmetric]
      db_def[symmetric]
    by (simp add: run sift eq)
  moreover have "set (map (\<lambda>i. ek ! i) K) \<subseteq> {0, 1}"
  proof -
    have "ek ! i \<in> {0, 1}" if "i \<in> set K" for i
    proof -
      have "i < n" using that by (simp add: K_def kept_positions_set)
      then have "ek ! i \<in> set ek" using len(1) by simp
      then show ?thesis using bits by blast
    qed
    then show ?thesis unfolding set_map by (intro image_subsetI)
  qed
  moreover have "length (map (\<lambda>i. ek ! i) K) \<le> m * 4"
    using kept_positions_length[of n eb db] by (simp add: K_def n_def)
  ultimately show ?thesis by blast
qed

lemma binary_not_abort:
  "set key \<subseteq> {CHR ''0'', CHR ''1''} \<Longrightarrow> key \<noteq> ''There was an eavesdropper!''"
  by auto

lemma gen_bin_key_result:
  assumes "\<forall>q < m * 4. 0 \<le> sim_random rnd q \<and> sim_random rnd q < 1"
  shows "\<exists>fe. sifted_keys m rnd = Inr (fe, fe) \<and> set fe \<subseteq> {0, 1} \<and> length fe \<le> m * 4 \<and>
     gen_bin_key m rnd = Inr (join_bits (drop (length fe div 2) fe))"
proof -
  obtain fe where fe: "sifted_keys m rnd = Inr (fe, fe)" "set fe \<subseteq> {0, 1}" "length fe \<le> m * 4"
    using sifted_keys_result[OF assms] by blast
  have "gen_bin_key m rnd = Inr (join_bits (drop (length fe div 2) fe))"
    by (simp add: gen_bin_key_def fe(1) eavesdropper_check_same)
  then show ?thesis using fe by blast
qed

lemma upt_0_3: "[0..<3] = [0, 1, 2]"
  by code_simp

lemma upt_0_4: "[0..<4] = [0, 1, 2, 3]"
  by code_simp

lemma sifted_keys_explicit:
  assumes "\<forall>q < m * 4. 0 \<le> sim_random rnd q \<and> sim_random rnd q < 1"
  shows "sifted_keys m rnd =
     Inr (map (\<lambda>i. choices [0, 1] (m * 4) (py_random rnd) 0 ! i)
            (filter (\<lambda>i. choices [Z, X] (m * 4) (py_random rnd) (m * 4) ! i =
                          choices [Z, X] (m * 4) (py_random rnd) (2 * (m * 4)) ! i) [0..<m * 4]),
          map (\<lambda>i. choices [0, 1] (m * 4) (py_random rnd) 0 ! i)
            (filter (\<lambda>i. choices [Z, X] (m * 4) (py_random rnd) (m * 4) ! i =
                          choices [Z, X] (m * 4) (py_random rnd) (2 * (m * 4)) ! i) [0..<m * 4]))"
proof -
  define n where "n = m * 4"
  define ek where "ek = choices [0, 1::nat] n (py_random rnd) 0"
  define eb where "eb = choices [Z, X] n (py_random rnd) n"
  define db where "db = choices [Z, X] n (py_random rnd) (2 * n)"
  define dk where "dk = map (\<lambda>q. measure_qubit (qubit_state (ek ! q) (eb ! q) (db ! q)) (sim_random rnd q)) [0..<n]"
  define K where "K = kept_positions n eb db"
  have len: "length ek = n" "length eb = n" "length db = n" "length dk = n"
    by (simp_all add: ek_def eb_def db_def dk_def choices_length)
  have bits: "set ek \<subseteq> {0, 1}" unfolding ek_def by (rule choices_bits)
  have run: "bb84_run n ek eb db (sim_random rnd) = Inr dk"
    unfolding dk_def by (rule bb84_run_result[OF len(1,2,3) bits])
  have sift: "sift n ek eb dk db = Inr (map (\<lambda>i. ek ! i) K, map (\<lambda>i. dk ! i) K)"
    unfolding K_def by (rule sift_result[OF len(1,2,4,3)])
  have same: "dk ! i = ek ! i" if "i \<in> set K" for i
  proof -
    have i: "i < n" "eb ! i = db ! i" using that by (simp_all add: K_def kept_positions_set)
    have "ek ! i \<in> set ek" using i(1) len(1) by simp
    then have v: "ek ! i \<in> {0, 1}" using bits by blast
    have u: "0 \<le> sim_random rnd i" "sim_random rnd i < 1" using assms i(1) by (simp_all add: n_def)
    have "dk ! i = measure_qubit (qubit_state (ek ! i) (eb ! i) (db ! i)) (sim_random rnd i)"
      using i(1) by (simp add: dk_def)
    then show ?thesis using measure_match[OF v u] i(2) by simp
  qed
  then have eq: "map (\<lambda>i. dk ! i) K = map (\<lambda>i. ek ! i) K" by (intro map_cong) auto
  have "sifted_keys m rnd = Inr (map (\<lambda>i. ek ! i) K, map (\<lambda>i. ek ! i) K)"
    unfolding sifted_keys_def Let_def n_def[symmetric] ek_def[symmetric] eb_def[symmetric]
      db_def[symmetric]
    by (simp add: run sift eq)
  then show ?thesis
    unfolding K_def kept_positions_def ek_def eb_def db_def n_def .
qed

lemma length_filter_full:
  "(length (filter P xs) = length xs) = (\<forall>x \<in> set xs. P x)"
proof
  assume l: "length (filter P xs) = length xs"
  show "\<forall>x \<in> set xs. P x"
  proof (rule ccontr)
    assume "\<not> (\<forall>x \<in> set xs. P x)"
    then obtain x where "x \<in> set xs" "\<not> P x" by blast
    then have "length (filter P xs) < length xs" by (rule length_filter_less)
    then show False using l by simp
  qed
next
  assume "\<forall>x \<in> set xs. P x"
  then have "filter P xs = xs" by (simp add: filter_id_conv)
  then show "length (filter P xs) = length xs" by simp
qed

lemma eavesdropper_check_cases:
  "eavesdropper_check fe fd =
     (if take (length fe div 2) fe = take (length fe div 2) fd
      then join_bits (drop (length fe div 2) fe)
      else ''There was an eavesdropper!'')"
  by (simp add: eavesdropper_check_def Let_def num_bits_to_compare_half)

lemma take_eq_iff_nth:
  assumes "n \<le> length xs" "n \<le> length ys"
  shows "(take n xs = take n ys) = (\<forall>i < n. xs ! i = ys ! i)"
  using assms by (auto simp: list_eq_iff_nth_eq)

section \<open>The key generator: claims\<close>

text \<open>
  Claim C1. Measurement determinism on basis match. For the circuit \<open>gen_bin_key\<close> builds
  from any key bits and any bases, every qubit whose decoder basis equals its encoder
  basis ends in a state where the encoded bit has probability exactly 1, and the simulated
  measurement returns that bit for every sample in \<open>[0, 1)\<close>, whatever the bases, bits and
  samples of the other qubits are.
\<close>

theorem measurement_deterministic_on_basis_match:
  assumes "length encoder_key = n" "length encoder_bases = n" "length decoder_bases = n"
    and "set encoder_key \<subseteq> {0, 1}"
    and "\<forall>q < n. 0 \<le> u q \<and> u q < 1"
  shows "\<exists>circuit. bb84_circuit n encoder_key encoder_bases decoder_bases = Inr circuit \<and>
           bb84_run n encoder_key encoder_bases decoder_bases u = Inr (run circuit u) \<and>
           length (run circuit u) = n \<and>
           (\<forall>i < n. encoder_bases ! i = decoder_bases ! i \<longrightarrow>
              probability (final_state circuit i) (encoder_key ! i) = 1 \<and>
              run circuit u ! i = encoder_key ! i)"
proof -
  let ?c = "built_circuit n encoder_key encoder_bases decoder_bases"
  have c: "bb84_circuit n encoder_key encoder_bases decoder_bases = Inr ?c"
    by (rule bb84_circuit_result[OF assms(1,2,3,4)])
  have r: "bb84_run n encoder_key encoder_bases decoder_bases u = Inr (run ?c u)"
    by (simp add: bb84_run_def c)
  have l: "length (run ?c u) = n" by (simp add: built_circuit_run)
  have "probability (final_state ?c i) (encoder_key ! i) = 1 \<and> run ?c u ! i = encoder_key ! i"
    if i: "i < n" and m: "encoder_bases ! i = decoder_bases ! i" for i
  proof -
    have "encoder_key ! i \<in> set encoder_key" using i assms(1) by simp
    then have v: "encoder_key ! i \<in> {0, 1}" using assms(4) by blast
    have u: "0 \<le> u i" "u i < 1" using assms(5) i by simp_all
    have "probability (final_state ?c i) (encoder_key ! i) = 1"
      using probability_match[OF v] m by (simp add: built_circuit_state[OF i])
    moreover have "run ?c u ! i = encoder_key ! i"
      using measure_match[OF v u] m i by (simp add: built_circuit_run)
    ultimately show ?thesis by simp
  qed
  then show ?thesis using c r l by blast
qed

theorem measurement_deterministic_on_basis_match_witness:
  "\<exists>circuit. bb84_circuit 2 [1, 0] [X, Z] [X, X] = Inr circuit \<and>
           bb84_run 2 [1, 0] [X, Z] [X, X] half_samples = Inr (run circuit half_samples) \<and>
           length (run circuit half_samples) = 2 \<and>
           (\<forall>i < 2. [X, Z] ! i = [X, X] ! i \<longrightarrow>
              probability (final_state circuit i) ([1, 0] ! i) = 1 \<and>
              run circuit half_samples ! i = [1, 0] ! i)"
  using measurement_deterministic_on_basis_match[of "[1, 0]" 2 "[X, Z]" "[X, X]" half_samples]
  by (simp add: half_samples_def)

text \<open>
  Claim C2. The abort branch is unreachable: for every \<open>min_key_length \<ge> 1\<close> and every
  outcome of the random draws, the two sifted sequences are identical, so the prefix
  comparison succeeds and \<open>gen_bin_key\<close> returns the joined suffix, never the message
  \<open>There was an eavesdropper!\<close>.
\<close>

theorem abort_branch_unreachable:
  assumes "1 \<le> min_key_length"
    and "\<forall>q < min_key_length * 4. 0 \<le> sim_random rnd q \<and> sim_random rnd q < 1"
  shows "\<exists>fe key. sifted_keys min_key_length rnd = Inr (fe, fe) \<and>
           gen_bin_key min_key_length rnd = Inr key \<and>
           key = join_bits (drop (num_bits_to_compare fe) fe) \<and>
           key \<noteq> ''There was an eavesdropper!''"
proof -
  obtain fe where fe: "sifted_keys min_key_length rnd = Inr (fe, fe)" "set fe \<subseteq> {0, 1}"
    "gen_bin_key min_key_length rnd = Inr (join_bits (drop (length fe div 2) fe))"
    using gen_bin_key_result[OF assms(2)] by blast
  have "set (drop (length fe div 2) fe) \<subseteq> {0, 1}" using fe(2) set_drop_subset[of _ fe] by blast
  then have "join_bits (drop (length fe div 2) fe) \<noteq> ''There was an eavesdropper!''"
    by (intro binary_not_abort join_bits_binary)
  then show ?thesis using fe(1,3) by (simp add: num_bits_to_compare_half)
qed

theorem abort_branch_unreachable_witness:
  "\<exists>fe key. sifted_keys 1 all_zero_entropy = Inr (fe, fe) \<and>
           gen_bin_key 1 all_zero_entropy = Inr key \<and>
           key = join_bits (drop (num_bits_to_compare fe) fe) \<and>
           key \<noteq> ''There was an eavesdropper!''"
  using abort_branch_unreachable[of 1 all_zero_entropy] by (simp add: all_zero_entropy_def)

text \<open>
  Claim C4. The eavesdropper check on two sifted sequences of equal length \<open>L\<close>: the
  compared prefix has \<open>floor(L * 0.5) = L div 2\<close> elements, that is, the check succeeds
  exactly when the two sequences agree at every index below \<open>L div 2\<close>, and it then returns
  the joined suffix of the encoder's sequence, of \<open>L - floor(L * 0.5)\<close> characters; otherwise
  it returns the abort message. On two identical sequences it therefore always succeeds,
  and for \<open>L = 0\<close> it succeeds with the empty key.
\<close>
theorem eavesdropper_check_prefix:
  assumes "set fe \<subseteq> {0, 1}" "length fd = length fe"
  shows "int (num_bits_to_compare fe) = \<lfloor>real (length fe) * 0.5\<rfloor> \<and>
         num_bits_to_compare fe = length fe div 2 \<and>
         eavesdropper_check fe fd =
           (if \<forall>i < num_bits_to_compare fe. fe ! i = fd ! i
            then join_bits (drop (num_bits_to_compare fe) fe)
            else ''There was an eavesdropper!'') \<and>
         (eavesdropper_check fe fd \<noteq> ''There was an eavesdropper!'') =
           (take (num_bits_to_compare fe) fe = take (num_bits_to_compare fe) fd) \<and>
         length (join_bits (drop (num_bits_to_compare fe) fe)) = length fe - num_bits_to_compare fe \<and>
         eavesdropper_check fe fe = join_bits (drop (num_bits_to_compare fe) fe) \<and>
         length (eavesdropper_check fe fe) = length fe - num_bits_to_compare fe \<and>
         eavesdropper_check [] [] = []"
proof -
  let ?n = "length fe div 2"
  let ?k = "drop ?n fe"
  have n: "num_bits_to_compare fe = ?n" by (rule num_bits_to_compare_half)
  have fl: "int (num_bits_to_compare fe) = \<lfloor>real (length fe) * 0.5\<rfloor>"
    by (simp add: num_bits_to_compare_def)
  have k: "set ?k \<subseteq> {0, 1}" using assms(1) set_drop_subset[of _ fe] by blast
  have len: "length (join_bits ?k) = length fe - ?n" using join_bits_length[OF k] by simp
  have na: "join_bits ?k \<noteq> ''There was an eavesdropper!''"
    using k by (intro binary_not_abort join_bits_binary)
  have pre: "(take ?n fe = take ?n fd) = (\<forall>i < ?n. fe ! i = fd ! i)"
    using assms(2) by (intro take_eq_iff_nth) simp_all
  have c: "eavesdropper_check fe fd =
      (if take ?n fe = take ?n fd then join_bits ?k else ''There was an eavesdropper!'')"
    by (rule eavesdropper_check_cases)
  have c1: "eavesdropper_check fe fd =
      (if \<forall>i < ?n. fe ! i = fd ! i then join_bits ?k else ''There was an eavesdropper!'')"
    using c pre by simp
  have c2: "(eavesdropper_check fe fd \<noteq> ''There was an eavesdropper!'') = (take ?n fe = take ?n fd)"
    using c na by simp
  have same: "eavesdropper_check fe fe = join_bits ?k" by (rule eavesdropper_check_same)
  have e: "eavesdropper_check [] [] = []" by (simp add: eavesdropper_check_same join_bits_def)
  show ?thesis unfolding n using fl[unfolded n] c1 c2 len same e by simp
qed

theorem eavesdropper_check_prefix_witness:
  "num_bits_to_compare [1, 0, 1] = 1 \<and>
   eavesdropper_check [1, 0, 1] [1, 1, 0] = ''01'' \<and>
   eavesdropper_check [1, 0, 1, 1] [1, 1, 1, 1] = ''There was an eavesdropper!''"
  using eavesdropper_check_prefix[of "[1, 0, 1]" "[1, 1, 0]"]
    eavesdropper_check_prefix[of "[1, 0, 1, 1]" "[1, 1, 1, 1]"]
  by (simp add: join_bits_def str_bit less_Suc_eq numeral_2_eq_2 all_conj_distrib)

text \<open>
  Claim C5. Sifting: the loop runs over the positions \<open>0, ..., num_bits - 1\<close> in ascending
  order and keeps exactly those where the two bases are equal; both sifted sequences are
  read at the same kept positions, so they have the same length and their elements at the
  same index come from the same original position.
\<close>

theorem sifting_correct:
  assumes "length encoder_key = n" "length encoder_bases = n"
    "length decoder_key = n" "length decoder_bases = n"
  shows "\<exists>fe fd. sift n encoder_key encoder_bases decoder_key decoder_bases = Inr (fe, fd) \<and>
           length fe = length fd \<and>
           fe = map (\<lambda>i. encoder_key ! i)
                  (filter (\<lambda>i. encoder_bases ! i = decoder_bases ! i) [0..<n]) \<and>
           fd = map (\<lambda>i. decoder_key ! i)
                  (filter (\<lambda>i. encoder_bases ! i = decoder_bases ! i) [0..<n]) \<and>
           sorted_wrt (<) (filter (\<lambda>i. encoder_bases ! i = decoder_bases ! i) [0..<n]) \<and>
           set (filter (\<lambda>i. encoder_bases ! i = decoder_bases ! i) [0..<n]) =
             {i. i < n \<and> encoder_bases ! i = decoder_bases ! i}"
  using sift_result[OF assms] kept_positions_sorted[of n encoder_bases decoder_bases]
    kept_positions_set[of n encoder_bases decoder_bases]
  unfolding kept_positions_def by simp

theorem sifting_correct_witness:
  "sift 3 [1, 0, 1] [Z, X, X] [1, 1, 1] [Z, Z, X] = Inr ([1, 1], [1, 1]) \<and>
   filter (\<lambda>i. [Z, X, X] ! i = [Z, Z, X] ! i) [0..<3] = [0, 2]"
  using sifting_correct[of "[1, 0, 1]" 3 "[Z, X, X]" "[1, 1, 1]" "[Z, Z, X]"]
  by (simp add: upt_0_3)

text \<open>
  Claim C6, as stated: the returned key is strictly shorter than the sifted sequence,
  which is strictly shorter than \<open>num_bits\<close>. Both inequalities fail for
  \<open>min_key_length = 1\<close>: when all four bases agree the sifted length is \<open>num_bits = 4\<close>, and
  when exactly one basis agrees the sifted length is 1 and so is the length of the key.
\<close>

theorem key_sizing_counterexample:
  "sifted_keys 1 all_zero_entropy = Inr ([0, 0, 0, 0], [0, 0, 0, 0]) \<and>
   gen_bin_key 1 all_zero_entropy = Inr ''00'' \<and>
   \<not> (length [0, 0, 0, 0 :: nat] < 1 * 4) \<and>
   sifted_keys 1 one_match_entropy = Inr ([0], [0]) \<and>
   gen_bin_key 1 one_match_entropy = Inr ''0'' \<and>
   \<not> (length ''0'' < length [0 :: nat])"
  by (simp add: gen_bin_key_def sifted_keys_def choices_def bb84_run_def bb84_circuit_def
      encoder_body_def decoder_body_def getitem_def lookup_def encode_gates_def basis_gates_def
      run_def measured_qubits_def final_state_def gates_on_def measure_qubit_def probability_def
      ket0_def sift_def sift_body_def eavesdropper_check_def num_bits_to_compare_half
      join_bits_def str_digit digit_char_def all_zero_entropy_def one_match_entropy_def
      upt_0_4 Let_def power_divide)

text \<open>
  Claim C6, amended. \<open>gen_bin_key\<close> works on \<open>num_bits = min_key_length * 4\<close> positions:
  the key bits and both basis sequences have \<open>num_bits\<close> elements and the sifted sequence
  is read at the positions below \<open>num_bits\<close> whose bases agree. It returns a string of the
  characters 0 and 1 only, of length \<open>L - L div 2\<close> for the sifted length \<open>L\<close>. That length
  is at most \<open>L\<close>, with equality exactly when \<open>L \<le> 1\<close>; \<open>L\<close> is at most \<open>num_bits\<close>, with
  equality exactly when all bases agree; and the key has at most \<open>2 * min_key_length\<close>
  characters, strictly fewer than \<open>num_bits\<close>.
\<close>
theorem key_sizing:
  assumes "1 \<le> min_key_length"
    and "\<forall>q < min_key_length * 4. 0 \<le> sim_random rnd q \<and> sim_random rnd q < 1"
  shows "let num_bits = min_key_length * 4;
             encoder_key = choices [0, 1] num_bits (py_random rnd) 0;
             encoder_bases = choices [Z, X] num_bits (py_random rnd) num_bits;
             decoder_bases = choices [Z, X] num_bits (py_random rnd) (2 * num_bits);
             fe = map (\<lambda>i. encoder_key ! i)
                    (filter (\<lambda>i. encoder_bases ! i = decoder_bases ! i) [0..<num_bits]);
             key = join_bits (drop (length fe div 2) fe)
         in length encoder_key = num_bits \<and>
            length encoder_bases = num_bits \<and>
            length decoder_bases = num_bits \<and>
            sifted_keys min_key_length rnd = Inr (fe, fe) \<and>
            gen_bin_key min_key_length rnd = Inr key \<and>
            set key \<subseteq> {CHR ''0'', CHR ''1''} \<and>
            length key = length fe - length fe div 2 \<and>
            length key \<le> length fe \<and>
            (length key = length fe) = (length fe \<le> 1) \<and>
            length fe \<le> num_bits \<and>
            (length fe = num_bits) = (\<forall>i < num_bits. encoder_bases ! i = decoder_bases ! i) \<and>
            length key \<le> min_key_length * 2 \<and>
            length key < num_bits"
proof -
  define n where "n = min_key_length * 4"
  define ek where "ek = choices [0, 1::nat] n (py_random rnd) 0"
  define eb where "eb = choices [Z, X] n (py_random rnd) n"
  define db where "db = choices [Z, X] n (py_random rnd) (2 * n)"
  define fe where "fe = map (\<lambda>i. ek ! i) (filter (\<lambda>i. eb ! i = db ! i) [0..<n])"
  define key where "key = join_bits (drop (length fe div 2) fe)"
  have lens: "length ek = n" "length eb = n" "length db = n"
    by (simp_all add: ek_def eb_def db_def choices_length)
  have sk: "sifted_keys min_key_length rnd = Inr (fe, fe)"
    using sifted_keys_explicit[OF assms(2)] unfolding fe_def ek_def eb_def db_def n_def .
  have gk: "gen_bin_key min_key_length rnd = Inr key"
    by (simp add: gen_bin_key_def sk eavesdropper_check_same key_def)
  have bits: "set ek \<subseteq> {0, 1}" unfolding ek_def by (rule choices_bits)
  have febits: "set fe \<subseteq> {0, 1}"
  proof -
    have "ek ! i \<in> {0, 1}" if "i \<in> set (filter (\<lambda>i. eb ! i = db ! i) [0..<n])" for i
    proof -
      have "i < n" using that by simp
      then have "ek ! i \<in> set ek" using lens(1) by simp
      then show ?thesis using bits by blast
    qed
    then show ?thesis unfolding fe_def set_map by (intro image_subsetI)
  qed
  have k: "set (drop (length fe div 2) fe) \<subseteq> {0, 1}"
    using febits set_drop_subset[of _ fe] by blast
  have kb: "set key \<subseteq> {CHR ''0'', CHR ''1''}" unfolding key_def by (rule join_bits_binary[OF k])
  have kl: "length key = length fe - length fe div 2"
    unfolding key_def using join_bits_length[OF k] by simp
  have fl: "length fe = length (filter (\<lambda>i. eb ! i = db ! i) [0..<n])" by (simp add: fe_def)
  have fle: "length fe \<le> n" using length_filter_le[of "\<lambda>i. eb ! i = db ! i" "[0..<n]"] fl by simp
  have full: "(length fe = n) = (\<forall>i < n. eb ! i = db ! i)"
    using length_filter_full[of "\<lambda>i. eb ! i = db ! i" "[0..<n]"] fl by auto
  have a1: "length key \<le> length fe" using kl by simp
  have a2: "(length key = length fe) = (length fe \<le> 1)" using kl by presburger
  have a3: "length key \<le> min_key_length * 2" using kl fle n_def by linarith
  have a4: "length key < n" using kl fle n_def assms(1) by linarith
  show ?thesis
    unfolding Let_def n_def[symmetric] ek_def[symmetric] eb_def[symmetric] db_def[symmetric]
      fe_def[symmetric] key_def[symmetric]
    using lens sk gk kb kl a1 a2 fle full a3 a4 by blast
qed

theorem key_sizing_witness:
  "let num_bits = 1 * 4;
       encoder_key = choices [0, 1] num_bits (py_random all_zero_entropy) 0;
       encoder_bases = choices [Z, X] num_bits (py_random all_zero_entropy) num_bits;
       decoder_bases = choices [Z, X] num_bits (py_random all_zero_entropy) (2 * num_bits);
       fe = map (\<lambda>i. encoder_key ! i)
              (filter (\<lambda>i. encoder_bases ! i = decoder_bases ! i) [0..<num_bits]);
       key = join_bits (drop (length fe div 2) fe)
   in length encoder_key = num_bits \<and>
      length encoder_bases = num_bits \<and>
      length decoder_bases = num_bits \<and>
      sifted_keys 1 all_zero_entropy = Inr (fe, fe) \<and>
      gen_bin_key 1 all_zero_entropy = Inr key \<and>
      set key \<subseteq> {CHR ''0'', CHR ''1''} \<and>
      length key = length fe - length fe div 2 \<and>
      length key \<le> length fe \<and>
      (length key = length fe) = (length fe \<le> 1) \<and>
      length fe \<le> num_bits \<and>
      (length fe = num_bits) = (\<forall>i < num_bits. encoder_bases ! i = decoder_bases ! i) \<and>
      length key \<le> 1 * 2 \<and>
      length key < num_bits"
proof -
  have h1: "1 \<le> (1::nat)" by simp
  have h2: "\<forall>q < 1 * 4. 0 \<le> sim_random all_zero_entropy q \<and> sim_random all_zero_entropy q < 1"
    by (simp add: all_zero_entropy_def)
  show ?thesis by (rule key_sizing[OF h1 h2])
qed

section \<open>The cipher: claims\<close>

text \<open>
  Claim C9. With an empty key and a non-empty text the key-stretching loop
  \<open>while len(key) < len(text): key += key\<close> never exits, so neither \<open>encrypt\<close> nor
  \<open>decrypt\<close> returns; with a non-empty key both return (a value or an exception). For a
  non-empty text, not returning is therefore the same as the key being empty.
\<close>
theorem encrypt_terminates_iff_key_nonempty:
  assumes "text \<noteq> []"
  shows "(encrypt text key = None) = (key = []) \<and> (decrypt text key = None) = (key = [])"
proof (cases "key = []")
  case True
  then show ?thesis
    using stretch_key_empty[OF unicode_to_binary_nonempty[OF assms]]
    by (simp add: encrypt_none_iff decrypt_none_iff)
next
  case False
  then show ?thesis
    using stretch_key_returns[OF False, of "length (unicode_to_binary text)"]
    by (auto simp: encrypt_none_iff decrypt_none_iff)
qed

theorem encrypt_terminates_iff_key_nonempty_witness:
  "[72::nat] \<noteq> [] \<and> encrypt [72] [] = None \<and> decrypt [72] [] = None
   \<and> encrypt [72] ''10'' \<noteq> None \<and> decrypt [72] ''10'' \<noteq> None"
  using encrypt_terminates_iff_key_nonempty[of "[72]" "[]"]
    encrypt_terminates_iff_key_nonempty[of "[72]" "''10''"]
  by simp

text \<open>
  Claim C7. \<open>decrypt\<close> computes the same function as \<open>encrypt\<close>: for every text and
  every non-empty key of binary digits both return, and they return the same string.
\<close>
theorem decrypt_same_as_encrypt:
  assumes "key \<noteq> []" "set key \<subseteq> {CHR ''0'', CHR ''1''}"
  shows "\<exists>r. encrypt text key = Some (Inr r) \<and> decrypt text key = Some (Inr r)"
proof -
  obtain key' where
    e: "encrypt text key = Some (binary_to_unicode (xor_strings (unicode_to_binary text) key'))"
    and d: "decrypt text key = Some (binary_to_unicode (xor_strings (unicode_to_binary text) key'))"
    using cipher_pipeline[OF assms, of "text"] by blast
  obtain r where "binary_to_unicode (xor_strings (unicode_to_binary text) key') = Inr r"
    using binary_to_unicode_returns[OF xor_strings_binary] by blast
  then show ?thesis using e d by simp
qed

theorem decrypt_same_as_encrypt_witness:
  "''1010'' \<noteq> [] \<and> set ''1010'' \<subseteq> {CHR ''0'', CHR ''1''}
   \<and> (\<exists>r. encrypt [72, 300] ''1010'' = Some (Inr r) \<and> decrypt [72, 300] ''1010'' = Some (Inr r))"
  using decrypt_same_as_encrypt[of "''1010''" "[72, 300]"] by simp

text \<open>
  Claim C8, as stated: a code point above 255 is encoded as the 8 binary digits of the
  code point reduced modulo 256. It fails at code point 256, which \<open>format(256, '08b')\<close>
  renders with nine digits.
\<close>
theorem unicode_to_binary_truncates_counterexample:
  "unicode_to_binary [256] = ''100000000'' \<and> format_08b (256 mod 256) = ''00000000''
   \<and> unicode_to_binary [256] \<noteq> format_08b (256 mod 256)"
  by code_simp

text \<open>
  Claim C8, amended. A code point above 255 is not truncated: \<open>unicode_to_binary\<close> emits
  its full binary representation, which has more than 8 digits and whose base-2 value is
  the code point itself.
\<close>
theorem unicode_to_binary_wide:
  assumes "255 < c"
  shows "unicode_to_binary [c] = bin c \<and> 8 < length (unicode_to_binary [c])
         \<and> int_base2 (unicode_to_binary [c]) = Inr c"
proof -
  have "2 ^ 8 \<le> c" using assms by simp
  then have len: "8 < length (bin c)" by (rule length_bin_gt)
  then have u: "unicode_to_binary [c] = bin c" by (simp add: unicode_to_binary_def format_08b_def)
  have "int_base2 (bin c) = Inr c"
    using bin_nonempty[of c] bin_binary[of c] by (simp add: int_base2_def base2_value_bin)
  then show ?thesis using u len by simp
qed

theorem unicode_to_binary_wide_witness:
  "(255::nat) < 256 \<and> unicode_to_binary [256] = bin 256 \<and> 8 < length (unicode_to_binary [256])
         \<and> int_base2 (unicode_to_binary [256]) = Inr 256"
proof -
  have h: "(255::nat) < 256" by simp
  show ?thesis using h unicode_to_binary_wide[OF h] by blast
qed

text \<open>
  Claim C3. Cipher round trip: for a text whose code points are all in 0..255 and a
  non-empty key of binary digits, \<open>encrypt\<close> returns a ciphertext and \<open>decrypt\<close> of that
  ciphertext under the same key returns the text.
\<close>
theorem cipher_round_trip:
  assumes "\<forall>c \<in> set text. c \<le> 255" "key \<noteq> []" "set key \<subseteq> {CHR ''0'', CHR ''1''}"
  shows "\<exists>ct. encrypt text key = Some (Inr ct) \<and> decrypt ct key = Some (Inr text)"
proof -
  define t where "t = unicode_to_binary text"
  define m where "m = length text"
  have small: "\<forall>c \<in> set text. c < 256" using assms(1) by auto
  have tlen: "length t = 8 * m" unfolding t_def m_def by (rule unicode_to_binary_length[OF small])
  have tbin: "set t \<subseteq> {CHR ''0'', CHR ''1''}" unfolding t_def by (rule unicode_to_binary_binary)
  obtain key' where k: "stretch_key key (length t) = Some key'" and klen: "length t \<le> length key'"
    and kbin: "set key' \<subseteq> {CHR ''0'', CHR ''1''}"
    and e: "encrypt text key = Some (binary_to_unicode (xor_strings t key'))"
    using cipher_pipeline[OF assms(2,3), of "text"] unfolding t_def by blast
  define x where "x = xor_strings t key'"
  define ct where "ct = map (\<lambda>j. base2_value (slice x (j * 8) (j * 8 + 8))) [0..<m]"
  have xlen: "length x = 8 * m" unfolding x_def using tlen by (simp only: xor_strings_length)
  have xbin: "set x \<subseteq> {CHR ''0'', CHR ''1''}" unfolding x_def by (rule xor_strings_binary)
  have enc: "encrypt text key = Some (Inr ct)"
    using e binary_to_unicode_chunks[OF xbin xlen] unfolding x_def ct_def by simp
  have ubx: "unicode_to_binary ct = x"
    unfolding ct_def by (rule unicode_to_binary_inverse[OF xbin xlen])
  obtain key'' where k2: "stretch_key key (length (unicode_to_binary ct)) = Some key''"
    and d: "decrypt ct key = Some (binary_to_unicode (xor_strings (unicode_to_binary ct) key''))"
    using cipher_pipeline[OF assms(2,3), of ct] by blast
  have "length (unicode_to_binary ct) = length t" using ubx xlen tlen by simp
  then have "key'' = key'" using k k2 by simp
  then have "decrypt ct key = Some (binary_to_unicode (xor_strings (xor_strings t key') key'))"
    using d ubx x_def by simp
  also have "xor_strings (xor_strings t key') key' = t"
    by (rule xor_strings_involution[OF tbin kbin klen])
  also have "binary_to_unicode t = Inr text"
    unfolding t_def by (rule binary_to_unicode_inverse[OF small])
  finally show ?thesis using enc by blast
qed

theorem cipher_round_trip_witness:
  "(72::nat) \<le> 255 \<and> (73::nat) \<le> 255 \<and> ''1010'' \<noteq> [] \<and> set ''1010'' \<subseteq> {CHR ''0'', CHR ''1''}
   \<and> (\<exists>ct. encrypt [72, 73] ''1010'' = Some (Inr ct) \<and> decrypt ct ''1010'' = Some (Inr [72, 73]))"
  using cipher_round_trip[of "[72, 73]" "''1010''"] by simp

text \<open>
  Claim C10. Length preservation: for a text whose code points are all in 0..255 and a
  non-empty key of binary digits, the ciphertext returned by \<open>encrypt\<close> has as many
  characters as the text.
\<close>
theorem encrypt_preserves_length:
  assumes "\<forall>c \<in> set text. c \<le> 255" "key \<noteq> []" "set key \<subseteq> {CHR ''0'', CHR ''1''}"
  shows "\<exists>ct. encrypt text key = Some (Inr ct) \<and> length ct = length text"
proof -
  define t where "t = unicode_to_binary text"
  have small: "\<forall>c \<in> set text. c < 256" using assms(1) by auto
  have tlen: "length t = 8 * length text" unfolding t_def by (rule unicode_to_binary_length[OF small])
  obtain key' where e: "encrypt text key = Some (binary_to_unicode (xor_strings t key'))"
    using cipher_pipeline[OF assms(2,3), of "text"] unfolding t_def by blast
  have xlen: "length (xor_strings t key') = 8 * length text"
    using tlen by (simp only: xor_strings_length)
  show ?thesis
    using e binary_to_unicode_chunks[OF xor_strings_binary xlen] by simp
qed

theorem encrypt_preserves_length_witness:
  "(72::nat) \<le> 255 \<and> (73::nat) \<le> 255 \<and> ''1010'' \<noteq> [] \<and> set ''1010'' \<subseteq> {CHR ''0'', CHR ''1''}
   \<and> (\<exists>ct. encrypt [72, 73] ''1010'' = Some (Inr ct) \<and> length ct = length [72, 73::nat])"
  using encrypt_preserves_length[of "[72, 73]" "''1010''"] by simp

end
